theory Spec2Isabelle
  imports
    Main
    "HOL-Library.Char_ord"
    "HOL-Library.List_Lexorder"
    "HOL-Library.Multiset"
begin

section \<open>The sprite sheet packer of \<^verbatim>\<open>tqdb/utils/images.py\<close>\<close>

text \<open>
  \<^verbatim>\<open>SpriteCreator.__init__\<close> reads every PNG of a directory, sorts the images by file
  name, groups them by exact size, lays every group out in rows of 768 pixels, stacks the
  rows into one sprite image and writes one style rule per image. The embedding follows
  the function statement by statement. Its input is the list of opened images in the
  order \<^verbatim>\<open>glob\<close> yields them; of an opened image only the name given to it
  (\<^verbatim>\<open>image.filename\<close>) and \<^verbatim>\<open>image.size\<close> are read. Python integers are
  \<^typ>\<open>int\<close>, Python strings are \<^typ>\<open>string\<close> under the code point order.
\<close>

subsection \<open>Images\<close>

record image =
  filename :: string
  img_size :: "int \<times> int"

text \<open>
  A raster made by \<^verbatim>\<open>Image.new(mode='RGBA', size=..., color=...)\<close>: its size, its
  background colour and the sequence of \<^verbatim>\<open>paste\<close> calls made on it, each with the
  pasted object and the position of its upper left corner. A canvas is a raster of
  source images, the sprite image a raster of canvases.
\<close>

record 'a raster =
  rsize :: "int \<times> int"
  rcolor :: "int \<times> int \<times> int \<times> int"
  rpastes :: "('a \<times> int \<times> int) list"

definition Image_new :: "int \<times> int \<Rightarrow> int \<times> int \<times> int \<times> int \<Rightarrow> 'a raster" where
  "Image_new sz col = \<lparr>rsize = sz, rcolor = col, rpastes = []\<rparr>"

definition paste :: "'a raster \<Rightarrow> 'a \<Rightarrow> int \<times> int \<Rightarrow> 'a raster" where
  "paste r a pos = r\<lparr>rpastes := rpastes r @ [(a, pos)]\<rparr>"

subsection \<open>Style rules\<close>

text \<open>
  The five arguments of \<^verbatim>\<open>sprite_css.format\<close>, before the unit suffix is decided:
  the class name, \<^verbatim>\<open>0 - x\<close>, \<^verbatim>\<open>0 - sprite_height\<close>, the image width and the image
  height. The source formats the text when it appends to \<^verbatim>\<open>css\<close>; the text is a
  function of these five values only, so the model keeps the values in the list and
  formats them where the list is sorted and written.
\<close>

record css_rule =
  selector :: string
  position_x :: int
  position_y :: int
  rule_width :: int
  rule_height :: int

fun digits :: "nat \<Rightarrow> string" where
  "digits n = (if n < 10 then [char_of (48 + n)]
               else digits (n div 10) @ [char_of (48 + n mod 10)])"

declare digits.simps [simp del]

definition str :: "int \<Rightarrow> string" where
  "str i = (if i < 0 then CHR ''-'' # digits (nat (- i)) else digits (nat i))"

definition px :: "int \<Rightarrow> string" where
  "px v = (if v \<noteq> 0 then str v @ ''px'' else str v)"

definition sprite_css :: "css_rule \<Rightarrow> string" where
  "sprite_css r =
     ''.'' @ selector r @ '' {'' @ [CHR 0x0A] @
     ''  background-position: '' @ px (position_x r) @ '' '' @ px (position_y r) @ '';'' @ [CHR 0x0A] @
     ''  width: '' @ px (rule_width r) @ '';'' @ [CHR 0x0A] @
     ''  height: '' @ px (rule_height r) @ '';'' @ [CHR 0x0A] @
     ''}'' @ [CHR 0x0A]"

subsection \<open>Grouping by size\<close>

text \<open>
  \<^verbatim>\<open>images_map\<close> is a dictionary from the key \<^verbatim>\<open>f'{width}x{height}'\<close> to the list
  of images of that size. The decimal text of a pair of integers determines the pair, and
  the only use of the key is to read the two integers back, so the model's key is the
  pair itself. A Python dictionary keeps its keys in the order of their first insertion:
  the model is an association list in which a new key goes to the end.
\<close>

type_synonym images_map = "((int \<times> int) \<times> image list) list"

fun images_map_add :: "image \<Rightarrow> images_map \<Rightarrow> images_map" where
  "images_map_add img [] = [(img_size img, [img])]"
| "images_map_add img ((key, images) # m) =
     (if key = img_size img then (key, images @ [img]) # m
      else (key, images) # images_map_add img m)"

definition group_images :: "image list \<Rightarrow> images_map" where
  "group_images images = fold images_map_add images []"

text \<open>
  \<^verbatim>\<open>sorted_keys.sort(key=lambda x: int(x.split('x')[1]))\<close> is a stable sort of the keys
  by their height; the loop then reads \<^verbatim>\<open>images_map[key]\<close> for every key in turn.
  Every key comes from the dictionary, so the model sorts the entries themselves.
\<close>

definition sorted_groups :: "images_map \<Rightarrow> images_map" where
  "sorted_groups m = sort_key (\<lambda>(key, images). snd key) m"

subsection \<open>Packing rows\<close>

definition sprite_width :: int where
  "sprite_width = 768"

definition transparent :: "int \<times> int \<times> int \<times> int" where
  "transparent = (0, 0, 0, 0)"

text \<open>
  The variables of the packing loops: the rules emitted so far, the canvases appended so
  far, the running \<^verbatim>\<open>sprite_height\<close>, the canvas being filled and the cursor
  \<^verbatim>\<open>x\<close>. No canvas is pasted on after it has been appended to \<^verbatim>\<open>canvases\<close> (the
  loop ends or a new canvas replaces it), so the list holds the canvases by value.
\<close>

record packer =
  css :: "css_rule list"
  canvases :: "image raster list"
  sprite_height :: int
  canvas :: "image raster"
  cur_x :: int

definition emit :: "image \<Rightarrow> int \<Rightarrow> int \<Rightarrow> css_rule" where
  "emit img px_x px_y =
     \<lparr>selector = filename img, position_x = px_x, position_y = px_y,
      rule_width = fst (img_size img), rule_height = snd (img_size img)\<rparr>"

text \<open>The branch \<^verbatim>\<open>x + image_width < sprite_width\<close>.\<close>

definition place_fits :: "image \<Rightarrow> packer \<Rightarrow> packer" where
  "place_fits img s =
     s\<lparr>canvas := paste (canvas s) img (cur_x s, 0),
       css := css s @ [emit img (0 - cur_x s) (0 - sprite_height s)],
       cur_x := cur_x s + fst (img_size img)\<rparr>"

text \<open>The branch \<^verbatim>\<open>x + image_width == sprite_width\<close>.\<close>

definition place_exact :: "int \<Rightarrow> nat \<Rightarrow> nat \<Rightarrow> image \<Rightarrow> packer \<Rightarrow> packer" where
  "place_exact canvas_height n index img s =
     (let s1 = s\<lparr>canvas := paste (canvas s) img (cur_x s, 0),
                 css := css s @ [emit img (0 - cur_x s) (0 - sprite_height s)]\<rparr>
      in if int index = int n - 1
         then s1\<lparr>canvases := canvases s1 @ [canvas s1],
                 sprite_height := sprite_height s1 + canvas_height\<rparr>
         else s1\<lparr>cur_x := cur_x s1 + fst (img_size img)\<rparr>)"

text \<open>The \<^verbatim>\<open>else\<close> branch.\<close>

definition place_overflow :: "int \<Rightarrow> image \<Rightarrow> packer \<Rightarrow> packer" where
  "place_overflow canvas_height img s =
     (let s1 = s\<lparr>canvases := canvases s @ [canvas s],
                 canvas := paste (Image_new (sprite_width, canvas_height) transparent) img (0, 0),
                 cur_x := fst (img_size img),
                 sprite_height := sprite_height s + canvas_height\<rparr>
      in s1\<lparr>css := css s1 @ [emit img 0 (0 - sprite_height s1)]\<rparr>)"

text \<open>
  One round of \<^verbatim>\<open>for index, image in enumerate(images_map[key])\<close>; \<open>n\<close> is
  \<^verbatim>\<open>len(images_map[key])\<close>.
\<close>

definition place_image :: "int \<Rightarrow> nat \<Rightarrow> nat \<times> image \<Rightarrow> packer \<Rightarrow> packer" where
  "place_image canvas_height n = (\<lambda>(index, img) s.
     if cur_x s + fst (img_size img) < sprite_width then place_fits img s
     else if cur_x s + fst (img_size img) = sprite_width
          then place_exact canvas_height n index img s
     else place_overflow canvas_height img s)"

text \<open>
  The two statements under \<^verbatim>\<open>if x < sprite_width\<close> after the inner loop: the open canvas
  is appended and \<^verbatim>\<open>sprite_height\<close> grows by the height of the canvas.
\<close>

definition seal :: "int \<Rightarrow> packer \<Rightarrow> packer" where
  "seal canvas_height s =
     s\<lparr>canvases := canvases s @ [canvas s], sprite_height := sprite_height s + canvas_height\<rparr>"

text \<open>
  One round of \<^verbatim>\<open>for key in sorted_keys\<close>: a new canvas of the height of the key and
  \<^verbatim>\<open>x = 0\<close>, the inner loop over the images of the key, the append of the last row.
\<close>

definition open_group :: "int \<Rightarrow> packer \<Rightarrow> packer" where
  "open_group canvas_height s =
     s\<lparr>canvas := Image_new (sprite_width, canvas_height) transparent, cur_x := 0\<rparr>"

definition place_images :: "int \<Rightarrow> image list \<Rightarrow> packer \<Rightarrow> packer" where
  "place_images canvas_height images s =
     fold (place_image canvas_height (length images)) (enumerate 0 images) s"

definition pack_group :: "(int \<times> int) \<times> image list \<Rightarrow> packer \<Rightarrow> packer" where
  "pack_group = (\<lambda>((canvas_width, canvas_height), images) s.
     let s1 = place_images canvas_height images (open_group canvas_height s)
     in if cur_x s1 < sprite_width then seal canvas_height s1 else s1)"

text \<open>
  The state before the first key. \<^verbatim>\<open>canvas\<close> and \<^verbatim>\<open>x\<close> are not bound yet in the
  source; the first round binds both before it reads them.
\<close>

definition init_packer :: packer where
  "init_packer =
     \<lparr>css = [], canvases = [], sprite_height = 0,
      canvas = Image_new (sprite_width, 0) transparent, cur_x = 0\<rparr>"

definition pack_groups :: "images_map \<Rightarrow> packer \<Rightarrow> packer" where
  "pack_groups groups s = fold pack_group groups s"

text \<open>
  The groups in the order of the packing loop: \<^verbatim>\<open>images.sort(key=lambda x: x.filename)\<close>, the
  grouping, the sort of the keys.
\<close>

definition size_groups :: "image list \<Rightarrow> images_map" where
  "size_groups files = sorted_groups (group_images (sort_key filename files))"

text \<open>The packing of a non-empty list of opened images, up to the end of the \<^verbatim>\<open>try\<close> block.\<close>

definition pack :: "image list \<Rightarrow> packer" where
  "pack files = pack_groups (size_groups files) init_packer"

subsection \<open>Stacking the canvases\<close>

definition paste_canvas ::
  "image raster \<Rightarrow> image raster raster \<times> int \<Rightarrow> image raster raster \<times> int" where
  "paste_canvas c = (\<lambda>(sprite_image, sprite_y).
     (paste sprite_image c (0, sprite_y), sprite_y + snd (rsize c)))"

definition compose :: "packer \<Rightarrow> image raster raster" where
  "compose s =
     fst (fold paste_canvas (canvases s)
            (Image_new (sprite_width, sprite_height s) transparent, 0))"

subsection \<open>The whole run\<close>

text \<open>
  With no image in the directory the source logs the warning \<^verbatim>\<open>No images found\<close> and
  returns before anything is packed or written: this early return is the error value of
  the model. Otherwise the run ends with the sprite image saved and the sorted rules
  written.
\<close>

datatype error = NoImagesFound

record sprite =
  sprite_image :: "image raster raster"
  css_lines :: "string list"

definition SpriteCreator :: "image list \<Rightarrow> error + sprite" where
  "SpriteCreator files =
     (if int (length files) \<le> 0 then Inl NoImagesFound
      else let s = pack files
           in Inr \<lparr>sprite_image = compose s, css_lines = sort (map sprite_css (css s))\<rparr>)"

subsection \<open>Auxiliary notions for the statements\<close>

text \<open>An opened image with the given name and size.\<close>

definition png :: "string \<Rightarrow> int \<Rightarrow> int \<Rightarrow> image" where
  "png name w h = \<lparr>filename = name, img_size = (w, h)\<rparr>"

text \<open>The sum of \<^verbatim>\<open>canvas.size[1]\<close> over a list of canvases.\<close>

definition heights :: "'a raster list \<Rightarrow> int" where
  "heights cs = sum_list (map (\<lambda>c. snd (rsize c)) cs)"

text \<open>
  Inside the rounds of one key the open canvas has the height of the key, and
  \<^verbatim>\<open>sprite_height\<close> is the total height of the appended canvases.
\<close>

definition height_inv :: "int \<Rightarrow> packer \<Rightarrow> bool" where
  "height_inv ch s \<longleftrightarrow> snd (rsize (canvas s)) = ch \<and> sprite_height s = heights (canvases s)"

text \<open>The rule \<open>r\<close> is one emitted for the image \<open>img\<close>.\<close>

definition rule_of :: "css_rule \<Rightarrow> image \<Rightarrow> bool" where
  "rule_of r img \<longleftrightarrow>
     selector r = filename img \<and> rule_width r = fst (img_size img) \<and>
     rule_height r = snd (img_size img)"

text \<open>Every list of the dictionary is non-empty and holds images of the size of its key.\<close>

definition groups_wf :: "images_map \<Rightarrow> bool" where
  "groups_wf m \<longleftrightarrow> (\<forall>(k, v) \<in> set m. v \<noteq> [] \<and> (\<forall>i \<in> set v. img_size i = k))"

text \<open>
  While the sorted images are added to the dictionary: every list is in ascending order of
  the names, and no image still to come has a smaller name than an image of a list.
\<close>

definition groups_sorted :: "images_map \<Rightarrow> image list \<Rightarrow> bool" where
  "groups_sorted m imgs \<longleftrightarrow>
     (\<forall>(k, v) \<in> set m. sorted (map filename v) \<and>
        (\<forall>i \<in> set v. \<forall>j \<in> set imgs. filename i \<le> filename j))"

text \<open>A valid image: positive width and height, width below \<^verbatim>\<open>sprite_width\<close>.\<close>

definition valid_image :: "image \<Rightarrow> bool" where
  "valid_image img \<longleftrightarrow>
     0 < fst (img_size img) \<and> fst (img_size img) < sprite_width \<and> 0 < snd (img_size img)"

text \<open>A group as the grouping makes it, of valid images: not empty, all of the size of the key.\<close>

definition group_valid :: "(int \<times> int) \<times> image list \<Rightarrow> bool" where
  "group_valid g \<longleftrightarrow>
     snd g \<noteq> [] \<and> list_all (\<lambda>i. valid_image i \<and> img_size i = fst g) (snd g)"

text \<open>
  The pixel columns of a rule: \<^verbatim>\<open>background-position\<close> holds \<^verbatim>\<open>0 - x\<close>, so the image
  starts at column \<open>0 - position_x\<close> and ends before that column plus its width.
\<close>

definition left_edge :: "css_rule \<Rightarrow> int" where
  "left_edge r = 0 - position_x r"

definition right_edge :: "css_rule \<Rightarrow> int" where
  "right_edge r = left_edge r + rule_width r"

text \<open>Of two rules on one row the first ends where the second starts, or before.\<close>

definition apart :: "css_rule \<Rightarrow> css_rule \<Rightarrow> bool" where
  "apart r1 r2 \<longleftrightarrow> (position_y r1 = position_y r2 \<longrightarrow> right_edge r1 \<le> left_edge r2)"

text \<open>
  Inside the rounds of one key: the rules emitted so far lie within the width of the sprite,
  none is below the open row, those on the open row end at the cursor or before, and
  rules of one row follow each other from left to right.
\<close>

definition span_inv :: "packer \<Rightarrow> bool" where
  "span_inv s \<longleftrightarrow>
     0 \<le> cur_x s \<and>
     (\<forall>r \<in> set (css s).
        0 \<le> left_edge r \<and> right_edge r \<le> sprite_width \<and>
        0 - position_y r \<le> sprite_height s \<and>
        (0 - position_y r = sprite_height s \<longrightarrow> right_edge r \<le> cur_x s)) \<and>
     sorted_wrt apart (css s)"

text \<open>Between two keys: every rule lies on a row above the next canvas.\<close>

definition span_ok :: "packer \<Rightarrow> bool" where
  "span_ok s \<longleftrightarrow>
     (\<forall>r \<in> set (css s).
        0 \<le> left_edge r \<and> right_edge r \<le> sprite_width \<and>
        0 - position_y r < sprite_height s) \<and>
     sorted_wrt apart (css s)"

text \<open>The objects pasted on a raster.\<close>

definition pasted :: "'a raster \<Rightarrow> 'a set" where
  "pasted c = fst ` set (rpastes c)"

text \<open>The images on the appended canvases, and those with the images on the open canvas.\<close>

definition sealed_pasted :: "packer \<Rightarrow> image set" where
  "sealed_pasted s = \<Union> (pasted ` set (canvases s))"

definition all_pasted :: "packer \<Rightarrow> image set" where
  "all_pasted s = sealed_pasted s \<union> pasted (canvas s)"

text \<open>
  The state in which the last image of the list \<open>imgs @ [img]\<close> of a key of height
  \<open>ch\<close> is reached, after the groups \<open>pre\<close>.
\<close>

definition before_last :: "images_map \<Rightarrow> int \<Rightarrow> image list \<Rightarrow> packer" where
  "before_last pre ch imgs =
     fold (place_image ch (Suc (length imgs))) (enumerate 0 imgs)
       (open_group ch (pack_groups pre init_packer))"

text \<open>The names of the images pasted on a canvas; a rule is on the canvas of its image.\<close>

definition names :: "image raster \<Rightarrow> string set" where
  "names c = filename ` pasted c"

definition on_canvas :: "css_rule \<Rightarrow> image raster \<Rightarrow> bool" where
  "on_canvas r c \<longleftrightarrow> selector r \<in> names c"

text \<open>The names that occur in a state of the packing loops.\<close>

definition used :: "packer \<Rightarrow> string set" where
  "used s = selector ` set (css s) \<union> \<Union> (names ` set (canvases s)) \<union> names (canvas s)"

text \<open>The vertical offsets of the rules of a canvas.\<close>

definition offsets :: "css_rule list \<Rightarrow> image raster \<Rightarrow> int set" where
  "offsets rs c = position_y ` {r \<in> set rs. on_canvas r c}"

text \<open>The rules of the second canvas, if it is another one, lie below those of the first.\<close>

definition below :: "css_rule list \<Rightarrow> image raster \<Rightarrow> image raster \<Rightarrow> bool" where
  "below rs c1 c2 \<longleftrightarrow> (c1 \<noteq> c2 \<longrightarrow> (\<forall>y1 \<in> offsets rs c1. \<forall>y2 \<in> offsets rs c2. y2 < y1))"

text \<open>
  Between two keys: the rules of every appended canvas lie above the next canvas and on
  one row, and the canvases are appended from top to bottom. Inside the rounds of one
  key, moreover, the rules of the open canvas are on the open row.
\<close>

definition row_ok :: "packer \<Rightarrow> bool" where
  "row_ok s \<longleftrightarrow>
     (\<forall>c \<in> set (canvases s). \<forall>y \<in> offsets (css s) c. 0 - y < sprite_height s) \<and>
     (\<forall>c \<in> set (canvases s). \<forall>y1 \<in> offsets (css s) c. \<forall>y2 \<in> offsets (css s) c. y1 = y2) \<and>
     sorted_wrt (below (css s)) (canvases s)"

definition row_inv :: "packer \<Rightarrow> bool" where
  "row_inv s \<longleftrightarrow> row_ok s \<and> (\<forall>y \<in> offsets (css s) (canvas s). 0 - y = sprite_height s)"

text \<open>Every rule is on a canvas: on an appended one or the open one, or on an appended one.\<close>

definition covered_inv :: "packer \<Rightarrow> bool" where
  "covered_inv s \<longleftrightarrow>
     selector ` set (css s) \<subseteq> \<Union> (names ` set (canvases s)) \<union> names (canvas s)"

definition covered_ok :: "packer \<Rightarrow> bool" where
  "covered_ok s \<longleftrightarrow> selector ` set (css s) \<subseteq> \<Union> (names ` set (canvases s))"

section \<open>Properties\<close>

subsection \<open>Rasters\<close>

lemma rsize_paste [simp]: "rsize (paste r a pos) = rsize r"
  by (simp add: paste_def)

lemma rsize_Image_new [simp]: "rsize (Image_new sz col) = sz"
  by (simp add: Image_new_def)

subsection \<open>The sprite height is the height of the appended canvases\<close>

lemma height_inv_place_image:
  "height_inv ch s \<Longrightarrow> height_inv ch (place_image ch n p s)"
  by (cases p)
     (simp add: height_inv_def heights_def place_image_def place_fits_def place_exact_def
        place_overflow_def Let_def)

lemma height_inv_fold:
  "height_inv ch s \<Longrightarrow> height_inv ch (fold (place_image ch n) ps s)"
  by (induction ps arbitrary: s) (simp_all add: height_inv_place_image)

lemma heights_pack_group:
  "sprite_height s = heights (canvases s) \<Longrightarrow>
   sprite_height (pack_group g s) = heights (canvases (pack_group g s))"
proof -
  obtain cw ch images where g: "g = ((cw, ch), images)"
    by (metis surj_pair)
  assume "sprite_height s = heights (canvases s)"
  then have "height_inv ch (open_group ch s)"
    by (simp add: height_inv_def open_group_def)
  then have "height_inv ch (place_images ch images (open_group ch s))"
    unfolding place_images_def by (rule height_inv_fold)
  then show ?thesis
    by (simp add: g pack_group_def Let_def seal_def height_inv_def heights_def)
qed

lemma heights_pack_groups:
  "sprite_height s = heights (canvases s) \<Longrightarrow>
   sprite_height (pack_groups gs s) = heights (canvases (pack_groups gs s))"
  unfolding pack_groups_def
  by (induction gs arbitrary: s) (simp_all add: heights_pack_group)

lemma heights_pack: "sprite_height (pack files) = heights (canvases (pack files))"
  unfolding pack_def
  by (rule heights_pack_groups) (simp add: init_packer_def heights_def)

lemma fold_paste_canvas:
  "fold paste_canvas cs (r, y) =
     (r\<lparr>rpastes := rpastes r @ map (\<lambda>k. (cs ! k, 0, y + heights (take k cs))) [0..<length cs]\<rparr>,
      y + heights cs)"
proof (induction cs arbitrary: r y)
  case Nil
  show ?case by (simp add: heights_def)
next
  case (Cons c cs)
  have eq: "map (\<lambda>k. ((c # cs) ! k, 0, y + heights (take k (c # cs)))) [0..<length (c # cs)] =
        (c, 0, y) # map (\<lambda>k. (cs ! k, 0, y + snd (rsize c) + heights (take k cs))) [0..<length cs]"
    by (simp add: upt_conv_Cons map_Suc_upt [symmetric] heights_def add.assoc del: upt_Suc)
  have "fold paste_canvas (c # cs) (r, y) =
        fold paste_canvas cs (paste r c (0, y), y + snd (rsize c))"
    by (simp add: paste_canvas_def)
  also have "\<dots> = ((paste r c (0, y))\<lparr>rpastes := rpastes (paste r c (0, y)) @
        map (\<lambda>k. (cs ! k, 0, y + snd (rsize c) + heights (take k cs))) [0..<length cs]\<rparr>,
      y + snd (rsize c) + heights cs)"
    by (rule Cons.IH)
  also have "\<dots> = (r\<lparr>rpastes := rpastes r @
        map (\<lambda>k. ((c # cs) ! k, 0, y + heights (take k (c # cs)))) [0..<length (c # cs)]\<rparr>,
      y + heights (c # cs))"
    unfolding eq by (simp add: paste_def heights_def add.assoc)
  finally show ?case .
qed

subsection \<open>Grouping\<close>

lemma mset_images_map_add:
  "mset (concat (map snd (images_map_add img m))) = add_mset img (mset (concat (map snd m)))"
  by (induction img m rule: images_map_add.induct) simp_all

lemma mset_fold_images_map_add:
  "mset (concat (map snd (fold images_map_add imgs m))) = mset (concat (map snd m)) + mset imgs"
  by (induction imgs arbitrary: m) (simp_all add: mset_images_map_add)

lemma mset_concat_cong:
  "mset xss = mset yss \<Longrightarrow> mset (concat xss) = mset (concat yss)"
proof -
  have "mset (concat zss) = sum_mset (image_mset mset (mset zss))" for zss :: "'a list list"
    by (induction zss) simp_all
  then show "mset xss = mset yss \<Longrightarrow> mset (concat xss) = mset (concat yss)"
    by simp
qed

lemma mset_size_groups: "mset (concat (map snd (size_groups files))) = mset files"
proof -
  have "mset (map snd (sorted_groups m)) = mset (map snd m)" for m :: images_map
    by (simp add: sorted_groups_def)
  then have "mset (concat (map snd (sorted_groups m))) = mset (concat (map snd m))"
    for m :: images_map
    by (rule mset_concat_cong)
  then show ?thesis
    by (simp add: size_groups_def group_images_def mset_fold_images_map_add)
qed

lemma size_groups_perm:
  assumes "distinct (map filename xs)" and "mset xs = mset ys"
  shows "size_groups xs = size_groups ys"
proof -
  from assms(1) have inj: "inj_on filename (set xs)"
    by (simp add: distinct_map)
  from assms(2) have perm: "mset xs = mset (sort_key filename ys)"
    by simp
  from perm inj have "sort_key filename xs = sort_key filename ys"
    by (rule sort_key_inj_key_eq) simp
  then show ?thesis
    by (simp add: size_groups_def)
qed

lemma images_map_add_cases:
  assumes "(k, v') \<in> set (images_map_add img m)"
  shows "(k, v') \<in> set m \<or>
         (k = img_size img \<and> (v' = [img] \<or> (\<exists>v. (k, v) \<in> set m \<and> v' = v @ [img])))"
  using assms
proof (induction img m rule: images_map_add.induct)
  case (1 img)
  then show ?case by simp
next
  case (2 img key images m)
  show ?case
  proof (cases "key = img_size img")
    case True
    with "2.prems" have "(k, v') = (key, images @ [img]) \<or> (k, v') \<in> set m"
      by simp
    with True show ?thesis by auto
  next
    case False
    with "2.prems" have "(k, v') = (key, images) \<or> (k, v') \<in> set (images_map_add img m)"
      by simp
    then show ?thesis
    proof
      assume "(k, v') = (key, images)"
      then show ?thesis by simp
    next
      assume "(k, v') \<in> set (images_map_add img m)"
      from "2.IH" [OF False this] show ?thesis by auto
    qed
  qed
qed

lemma groups_wf_images_map_add:
  assumes "groups_wf m"
  shows "groups_wf (images_map_add img m)"
  unfolding groups_wf_def
proof (intro ballI, clarify)
  fix k v'
  assume "(k, v') \<in> set (images_map_add img m)"
  then have "(k, v') \<in> set m \<or>
         (k = img_size img \<and> (v' = [img] \<or> (\<exists>v. (k, v) \<in> set m \<and> v' = v @ [img])))"
    by (rule images_map_add_cases)
  with assms show "v' \<noteq> [] \<and> (\<forall>i \<in> set v'. img_size i = k)"
    unfolding groups_wf_def by fastforce
qed

lemma groups_wf_fold: "groups_wf m \<Longrightarrow> groups_wf (fold images_map_add imgs m)"
  by (induction imgs arbitrary: m) (simp_all add: groups_wf_images_map_add)

lemma set_sorted_groups [simp]: "set (sorted_groups m) = set m"
  by (simp add: sorted_groups_def)

lemma groups_wf_size_groups: "groups_wf (size_groups files)"
proof -
  have "groups_wf (fold images_map_add (sort_key filename files) [])"
    by (rule groups_wf_fold) (simp add: groups_wf_def)
  then show ?thesis
    by (simp add: groups_wf_def size_groups_def group_images_def)
qed

lemma groups_sorted_images_map_add:
  assumes "groups_sorted m (img # imgs)" and "sorted (map filename (img # imgs))"
  shows "groups_sorted (images_map_add img m) imgs"
  unfolding groups_sorted_def
proof (intro ballI, clarify)
  fix k v'
  assume "(k, v') \<in> set (images_map_add img m)"
  then have "(k, v') \<in> set m \<or>
         (k = img_size img \<and> (v' = [img] \<or> (\<exists>v. (k, v) \<in> set m \<and> v' = v @ [img])))"
    by (rule images_map_add_cases)
  then consider "(k, v') \<in> set m" | "v' = [img]" | v where "(k, v) \<in> set m" "v' = v @ [img]"
    by blast
  then show "sorted (map filename v') \<and> (\<forall>i \<in> set v'. \<forall>j \<in> set imgs. filename i \<le> filename j)"
  proof cases
    case 1
    with assms(1) show ?thesis
      unfolding groups_sorted_def by fastforce
  next
    case 2
    with assms(2) show ?thesis by simp
  next
    case 3
    from assms(1) 3(1) have v: "sorted (map filename v)"
      "\<forall>i \<in> set v. \<forall>j \<in> set (img # imgs). filename i \<le> filename j"
      unfolding groups_sorted_def by fastforce+
    from v(2) have "\<forall>i \<in> set v. filename i \<le> filename img"
      by simp
    with v(1) have "sorted (map filename (v @ [img]))"
      by (simp add: sorted_append)
    moreover from v(2) assms(2)
    have "\<forall>i \<in> set (v @ [img]). \<forall>j \<in> set imgs. filename i \<le> filename j"
      by simp
    ultimately show ?thesis
      using 3(2) by simp
  qed
qed

lemma groups_sorted_fold:
  "groups_sorted m imgs \<Longrightarrow> sorted (map filename imgs) \<Longrightarrow>
   groups_sorted (fold images_map_add imgs m) []"
proof (induction imgs arbitrary: m)
  case Nil
  then show ?case by simp
next
  case (Cons img imgs)
  from Cons.prems have "groups_sorted (images_map_add img m) imgs"
    by (rule groups_sorted_images_map_add)
  moreover from Cons.prems(2) have "sorted (map filename imgs)"
    by simp
  ultimately have "groups_sorted (fold images_map_add imgs (images_map_add img m)) []"
    by (rule Cons.IH)
  then show ?case by simp
qed

lemma size_groups_sorted:
  "(\<forall>(k, v) \<in> set (size_groups files). sorted (map filename v)) \<and>
   sorted (map (\<lambda>(k, v). snd k) (size_groups files))"
proof -
  have "groups_sorted (fold images_map_add (sort_key filename files) []) []"
    by (rule groups_sorted_fold) (simp_all add: groups_sorted_def)
  then have "\<forall>(k, v) \<in> set (size_groups files). sorted (map filename v)"
    by (simp add: groups_sorted_def size_groups_def group_images_def)
  moreover have "sorted (map (\<lambda>(k, v). snd k) (size_groups files))"
    unfolding size_groups_def sorted_groups_def by (rule sorted_sort_key)
  ultimately show ?thesis by blast
qed

subsection \<open>One rule per image\<close>

lemma css_place_image:
  "\<exists>r. css (place_image ch n (i, img) s) = css s @ [r] \<and> rule_of r img"
  by (simp add: place_image_def place_fits_def place_exact_def place_overflow_def Let_def
      rule_of_def emit_def)

lemma css_fold_place_image:
  "\<exists>rs. css (fold (place_image ch n) ps s) = css s @ rs \<and> list_all2 rule_of rs (map snd ps)"
proof (induction ps arbitrary: s)
  case Nil
  show ?case by simp
next
  case (Cons p ps)
  obtain i img where p: "p = (i, img)"
    by (cases p)
  obtain r where r: "css (place_image ch n (i, img) s) = css s @ [r]" "rule_of r img"
    using css_place_image by blast
  obtain rs where rs: "css (fold (place_image ch n) ps (place_image ch n (i, img) s)) =
      css (place_image ch n (i, img) s) @ rs" "list_all2 rule_of rs (map snd ps)"
    using Cons.IH by blast
  from r rs have "css (fold (place_image ch n) (p # ps) s) = css s @ (r # rs) \<and>
      list_all2 rule_of (r # rs) (map snd (p # ps))"
    by (simp add: p)
  then show ?case by blast
qed

lemma css_pack_group:
  "\<exists>rs. css (pack_group g s) = css s @ rs \<and> list_all2 rule_of rs (snd g)"
proof -
  obtain cw ch images where g: "g = ((cw, ch), images)"
    by (metis surj_pair)
  obtain rs where "css (place_images ch images (open_group ch s)) = css (open_group ch s) @ rs"
    "list_all2 rule_of rs (map snd (enumerate 0 images))"
    unfolding place_images_def using css_fold_place_image by blast
  then have "css (pack_group g s) = css s @ rs \<and> list_all2 rule_of rs (snd g)"
    by (simp add: g pack_group_def Let_def seal_def open_group_def)
  then show ?thesis by blast
qed

lemma css_pack_groups:
  "\<exists>rs. css (pack_groups gs s) = css s @ rs \<and> list_all2 rule_of rs (concat (map snd gs))"
proof (induction gs arbitrary: s)
  case Nil
  show ?case by (simp add: pack_groups_def)
next
  case (Cons g gs)
  obtain r1 where r1: "css (pack_group g s) = css s @ r1" "list_all2 rule_of r1 (snd g)"
    using css_pack_group by blast
  obtain r2 where r2: "css (pack_groups gs (pack_group g s)) = css (pack_group g s) @ r2"
    "list_all2 rule_of r2 (concat (map snd gs))"
    using Cons.IH by blast
  from r1 r2 have "css (pack_groups (g # gs) s) = css s @ (r1 @ r2) \<and>
      list_all2 rule_of (r1 @ r2) (concat (map snd (g # gs)))"
    by (simp add: pack_groups_def list_all2_appendI)
  then show ?case by blast
qed

lemma css_pack: "list_all2 rule_of (css (pack files)) (concat (map snd (size_groups files)))"
  using css_pack_groups [of "size_groups files" init_packer]
  by (auto simp: pack_def init_packer_def)

lemma length_css_pack: "length (css (pack files)) = length files"
proof -
  have "length (css (pack files)) = length (concat (map snd (size_groups files)))"
    using css_pack by (rule list_all2_lengthD)
  also have "\<dots> = length files"
    using mset_size_groups [of files] by (rule mset_eq_length)
  finally show ?thesis .
qed

lemma rule_for_image:
  assumes "img \<in> set files"
  shows "\<exists>r \<in> set (css (pack files)). rule_of r img"
proof -
  from assms have "img \<in> set (concat (map snd (size_groups files)))"
    using mset_size_groups [of files] by (metis mset_eq_setD)
  then obtain k where k: "k < length (concat (map snd (size_groups files)))"
    "concat (map snd (size_groups files)) ! k = img"
    unfolding in_set_conv_nth by blast
  with css_pack [of files] have "rule_of (css (pack files) ! k) img" "k < length (css (pack files))"
    by (auto simp: list_all2_conv_all_nth)
  then show ?thesis
    by (metis nth_mem)
qed

subsection \<open>Spans: one round of the loop\<close>

lemma span_inv_place_fits:
  assumes "span_inv s" "valid_image img" "cur_x s + fst (img_size img) \<le> sprite_width"
  shows "span_inv (place_fits img s)"
  using assms
  by (auto simp: span_inv_def place_fits_def valid_image_def sorted_wrt_append apart_def
      left_edge_def right_edge_def emit_def)

lemma span_inv_place_exact:
  assumes "span_inv s" "valid_image img" "cur_x s + fst (img_size img) = sprite_width" "0 < ch"
  shows "span_inv (place_exact ch n i img s)"
  using assms
  by (auto simp: span_inv_def place_exact_def Let_def valid_image_def sorted_wrt_append apart_def
      left_edge_def right_edge_def emit_def)

lemma span_inv_place_overflow:
  assumes "span_inv s" "valid_image img" "0 < ch"
  shows "span_inv (place_overflow ch img s)"
  using assms
  by (auto simp: span_inv_def place_overflow_def Let_def valid_image_def sorted_wrt_append
      apart_def left_edge_def right_edge_def emit_def)

lemma span_inv_place_image:
  assumes "span_inv s" "valid_image (snd p)" "0 < ch"
  shows "span_inv (place_image ch n p s)"
  using assms
  by (cases p)
     (simp add: place_image_def span_inv_place_fits span_inv_place_exact span_inv_place_overflow)

lemma span_inv_fold:
  "span_inv s \<Longrightarrow> list_all (\<lambda>p. valid_image (snd p)) ps \<Longrightarrow> 0 < ch \<Longrightarrow>
   span_inv (fold (place_image ch n) ps s)"
  by (induction ps arbitrary: s) (simp_all add: span_inv_place_image)

subsection \<open>The last image of a list\<close>

lemma place_images_snoc:
  "place_images ch (g @ [img]) s =
     place_image ch (Suc (length g)) (length g, img)
       (fold (place_image ch (Suc (length g))) (enumerate 0 g) s)"
  by (simp add: place_images_def enumerate_append_eq)

lemma cur_x_last:
  assumes "valid_image img"
  shows "cur_x (place_image ch (Suc m) (m, img) s) < sprite_width"
  using assms
  by (simp add: place_image_def place_fits_def place_exact_def place_overflow_def Let_def
      valid_image_def)

lemma list_all_enumerate:
  "list_all (\<lambda>i. P i) g \<Longrightarrow> list_all (\<lambda>p. P (snd p)) (enumerate k g)"
  by (induction g arbitrary: k) simp_all

lemma group_valid_snoc:
  assumes "group_valid g"
  obtains cw ch imgs img where "g = ((cw, ch), imgs @ [img])" "0 < ch" "valid_image img"
    "list_all valid_image imgs" "list_all (\<lambda>i. img_size i = (cw, ch)) (imgs @ [img])"
proof -
  obtain cw ch images where g: "g = ((cw, ch), images)"
    by (metis surj_pair)
  from assms g have ne: "images \<noteq> []"
    and all: "list_all (\<lambda>i. valid_image i \<and> img_size i = (cw, ch)) images"
    by (simp_all add: group_valid_def)
  from ne obtain imgs img where images: "images = imgs @ [img]"
    by (metis rev_exhaust)
  from all images have v: "valid_image img" "img_size img = (cw, ch)" "list_all valid_image imgs"
    "list_all (\<lambda>i. img_size i = (cw, ch)) (imgs @ [img])"
    by (simp_all add: list_all_iff)
  then have "0 < ch"
    by (simp add: valid_image_def)
  with g images v that show thesis
    by blast
qed

lemma pack_group_sealed:
  assumes "valid_image img"
  shows "pack_group ((cw, ch), imgs @ [img]) s =
           seal ch (place_images ch (imgs @ [img]) (open_group ch s))"
proof -
  have "cur_x (place_images ch (imgs @ [img]) (open_group ch s)) < sprite_width"
    unfolding place_images_snoc using assms by (rule cur_x_last)
  then show ?thesis
    by (simp add: pack_group_def Let_def)
qed

subsection \<open>Spans: groups\<close>

lemma span_inv_open_group: "span_ok s \<Longrightarrow> span_inv (open_group ch s)"
  by (auto simp: span_ok_def span_inv_def open_group_def)

lemma span_ok_seal: "span_inv s \<Longrightarrow> 0 < ch \<Longrightarrow> span_ok (seal ch s)"
  by (auto simp: span_ok_def span_inv_def seal_def)

lemma span_ok_pack_group:
  assumes "span_ok s" "group_valid g"
  shows "span_ok (pack_group g s)"
proof -
  from assms(2) obtain cw ch imgs img where g: "g = ((cw, ch), imgs @ [img])" and ch: "0 < ch"
    and v: "valid_image img" "list_all valid_image imgs"
    by (rule group_valid_snoc)
  from v have "list_all (\<lambda>p. valid_image (snd p)) (enumerate 0 (imgs @ [img]))"
    by (intro list_all_enumerate) simp
  with assms(1) ch have "span_inv (place_images ch (imgs @ [img]) (open_group ch s))"
    unfolding place_images_def by (intro span_inv_fold span_inv_open_group)
  with ch have "span_ok (seal ch (place_images ch (imgs @ [img]) (open_group ch s)))"
    by (intro span_ok_seal)
  with v(1) show ?thesis
    by (simp add: g pack_group_sealed)
qed

lemma span_ok_pack_groups:
  "span_ok s \<Longrightarrow> list_all group_valid gs \<Longrightarrow> span_ok (pack_groups gs s)"
  unfolding pack_groups_def
  by (induction gs arbitrary: s) (simp_all add: span_ok_pack_group)

lemma group_valid_size_groups:
  assumes "list_all valid_image files"
  shows "list_all group_valid (size_groups files)"
proof -
  have "group_valid g" if g: "g \<in> set (size_groups files)" for g
  proof -
    obtain k v where kv: "g = (k, v)"
      by (cases g)
    from g kv groups_wf_size_groups [of files] have wf: "v \<noteq> []" "\<forall>i \<in> set v. img_size i = k"
      unfolding groups_wf_def by auto
    from g kv have "set v \<subseteq> set (concat (map snd (size_groups files)))"
      by force
    also have "\<dots> = set files"
      using mset_size_groups [of files] by (rule mset_eq_setD)
    finally have "\<forall>i \<in> set v. valid_image i"
      using assms by (auto simp: list_all_iff)
    with wf show ?thesis
      by (simp add: group_valid_def kv list_all_iff)
  qed
  then show ?thesis
    by (simp add: list_all_iff)
qed

lemma span_ok_pack: "list_all valid_image files \<Longrightarrow> span_ok (pack files)"
  unfolding pack_def
  by (intro span_ok_pack_groups group_valid_size_groups)
     (simp_all add: span_ok_def init_packer_def)

subsection \<open>The images on the canvases\<close>

lemma pasted_paste [simp]: "pasted (paste c a pos) = insert a (pasted c)"
  by (simp add: pasted_def paste_def)

lemma pasted_Image_new [simp]: "pasted (Image_new sz col) = {}"
  by (simp add: pasted_def Image_new_def)

lemma all_pasted_place_image:
  "all_pasted (place_image ch n p s) \<subseteq> insert (snd p) (all_pasted s)"
  by (cases p)
     (auto simp: all_pasted_def sealed_pasted_def place_image_def place_fits_def place_exact_def
        place_overflow_def Let_def)

lemma all_pasted_fold:
  "all_pasted (fold (place_image ch n) ps s) \<subseteq> all_pasted s \<union> snd ` set ps"
proof (induction ps arbitrary: s)
  case Nil
  show ?case by simp
next
  case (Cons p ps)
  have "all_pasted (fold (place_image ch n) ps (place_image ch n p s))
          \<subseteq> all_pasted (place_image ch n p s) \<union> snd ` set ps"
    by (rule Cons.IH)
  with all_pasted_place_image [of ch n p s] show ?case
    by auto
qed

lemma all_pasted_open_group [simp]: "all_pasted (open_group ch s) = sealed_pasted s"
  by (simp add: all_pasted_def sealed_pasted_def open_group_def)

lemma sealed_pasted_seal [simp]: "sealed_pasted (seal ch s) = all_pasted s"
  by (auto simp: all_pasted_def sealed_pasted_def seal_def)

lemma sealed_subset_all: "sealed_pasted s \<subseteq> all_pasted s"
  by (simp add: all_pasted_def)

lemma sealed_pasted_pack_group:
  "sealed_pasted (pack_group g s) \<subseteq> sealed_pasted s \<union> set (snd g)"
proof -
  obtain cw ch images where g: "g = ((cw, ch), images)"
    by (metis surj_pair)
  let ?s1 = "place_images ch images (open_group ch s)"
  have "snd ` set (enumerate 0 images) = set images"
    by (metis list.set_map map_snd_enumerate)
  with all_pasted_fold [of ch "length images" "enumerate 0 images" "open_group ch s"]
  have "all_pasted ?s1 \<subseteq> sealed_pasted s \<union> set images"
    unfolding place_images_def by simp
  moreover have "sealed_pasted (pack_group g s) \<subseteq> all_pasted ?s1"
    using sealed_subset_all [of ?s1] by (simp add: g pack_group_def Let_def)
  ultimately show ?thesis
    by (simp add: g)
qed

lemma sealed_pasted_pack_groups:
  "sealed_pasted (pack_groups gs s) \<subseteq> sealed_pasted s \<union> set (concat (map snd gs))"
proof (induction gs arbitrary: s)
  case Nil
  show ?case by (simp add: pack_groups_def)
next
  case (Cons g gs)
  have "sealed_pasted (pack_groups gs (pack_group g s))
          \<subseteq> sealed_pasted (pack_group g s) \<union> set (concat (map snd gs))"
    by (rule Cons.IH)
  with sealed_pasted_pack_group [of g s] show ?case
    by (auto simp: pack_groups_def)
qed

lemma pack_groups_append:
  "pack_groups (pre @ g # post) s = pack_groups post (pack_group g (pack_groups pre s))"
  by (simp add: pack_groups_def)

lemma canvases_of_compose: "map fst (rpastes (compose s)) = canvases s"
  by (simp add: compose_def fold_paste_canvas Image_new_def comp_def map_nth)

lemma distinct_size_groups:
  "distinct files \<Longrightarrow> distinct (concat (map snd (size_groups files)))"
  using mset_size_groups [of files] by (metis mset_eq_imp_distinct_iff)

subsection \<open>Rules and their canvases\<close>

lemma names_paste [simp]: "names (paste c img pos) = insert (filename img) (names c)"
  by (simp add: names_def)

lemma names_Image_new [simp]: "names (Image_new sz col) = {}"
  by (simp add: names_def)

lemma selector_emit [simp]: "selector (emit img a b) = filename img"
  by (simp add: emit_def)

lemma position_y_emit [simp]: "position_y (emit img a b) = b"
  by (simp add: emit_def)

lemma offsets_snoc_other:
  "selector r \<notin> names c \<Longrightarrow> offsets (rs @ [r]) c = offsets rs c"
  by (auto simp: offsets_def on_canvas_def)

lemma offsets_snoc_paste:
  assumes "filename img \<notin> selector ` set rs"
  shows "offsets (rs @ [emit img a b]) (paste c img pos) = insert b (offsets rs c)"
proof -
  from assms have "selector r \<noteq> filename img" if "r \<in> set rs" for r
    using that by (auto simp: image_iff)
  then have "{r \<in> set (rs @ [emit img a b]). on_canvas r (paste c img pos)} =
        insert (emit img a b) {r \<in> set rs. on_canvas r c}"
    by (auto simp: on_canvas_def)
  then show ?thesis
    by (simp add: offsets_def)
qed

lemma sorted_wrt_below_snoc:
  assumes "sorted_wrt (below rs) cs" and "\<forall>c \<in> set cs. selector r \<notin> names c"
  shows "sorted_wrt (below (rs @ [r])) cs"
proof (rule sorted_wrt_mono_rel [OF _ assms(1)])
  fix c1 c2
  assume "c1 \<in> set cs" "c2 \<in> set cs" "below rs c1 c2"
  with assms(2) show "below (rs @ [r]) c1 c2"
    by (simp add: below_def offsets_snoc_other)
qed

lemma place_exact_not_last:
  "int i \<noteq> int n - 1 \<Longrightarrow> place_exact ch n i img s = place_fits img s"
  by (simp add: place_exact_def place_fits_def Let_def)

lemma place_exact_last:
  "int i = int n - 1 \<Longrightarrow>
   place_exact ch n i img s = (seal ch (place_fits img s))\<lparr>cur_x := cur_x s\<rparr>"
  by (simp add: place_exact_def place_fits_def seal_def Let_def)

lemma row_ok_cur_x [simp]: "row_ok (s\<lparr>cur_x := v\<rparr>) = row_ok s"
  by (simp add: row_ok_def)

lemma seal_cur_x: "seal ch (s\<lparr>cur_x := v\<rparr>) = (seal ch s)\<lparr>cur_x := v\<rparr>"
  by (simp add: seal_def)

lemma fresh_used:
  assumes "filename img \<notin> used s"
  shows "filename img \<notin> selector ` set (css s)"
    and "\<forall>c \<in> set (canvases s). filename img \<notin> names c"
    and "filename img \<notin> names (canvas s)"
  using assms by (auto simp: used_def)

lemma row_inv_place_fits:
  assumes inv: "row_inv s" and fresh: "filename img \<notin> used s"
  shows "row_inv (place_fits img s)"
proof -
  let ?e = "emit img (0 - cur_x s) (0 - sprite_height s)"
  note f = fresh_used [OF fresh]
  have css': "css (place_fits img s) = css s @ [?e]"
    and cs': "canvases (place_fits img s) = canvases s"
    and h': "sprite_height (place_fits img s) = sprite_height s"
    and c': "canvas (place_fits img s) = paste (canvas s) img (cur_x s, 0)"
    by (simp_all add: place_fits_def)
  have old: "offsets (css s @ [emit img a b]) c = offsets (css s) c" if "c \<in> set (canvases s)" for c a b
    using that f(2) by (simp add: offsets_snoc_other)
  have new: "offsets (css s @ [?e]) (paste (canvas s) img (cur_x s, 0)) =
      insert (0 - sprite_height s) (offsets (css s) (canvas s))"
    using f(1) by (rule offsets_snoc_paste)
  from inv have "sorted_wrt (below (css s)) (canvases s)"
    by (simp add: row_inv_def row_ok_def)
  then have "sorted_wrt (below (css s @ [?e])) (canvases s)"
    using f(2) by (intro sorted_wrt_below_snoc) simp_all
  with inv show ?thesis
    unfolding row_inv_def row_ok_def css' cs' h' c' new by (simp add: old cong: ball_cong)
qed

lemma open_row_below:
  assumes "row_inv s" and "c1 \<in> set (canvases s)"
  shows "below (css s) c1 (canvas s)"
  unfolding below_def
proof (intro impI ballI)
  fix y1 y2
  assume "y1 \<in> offsets (css s) c1" "y2 \<in> offsets (css s) (canvas s)"
  with assms have "0 - y1 < sprite_height s" "0 - y2 = sprite_height s"
    unfolding row_inv_def row_ok_def by blast+
  then show "y2 < y1"
    by simp
qed

lemma row_ok_sealed_rows:
  assumes inv: "row_inv s" and ch: "0 < ch" and c: "c \<in> insert (canvas s) (set (canvases s))"
  shows "\<forall>y \<in> offsets (css s) c. 0 - y < sprite_height s + ch"
    and "\<forall>y1 \<in> offsets (css s) c. \<forall>y2 \<in> offsets (css s) c. y1 = y2"
proof -
  from c consider "c = canvas s" | "c \<in> set (canvases s)"
    by blast
  then have "(\<forall>y \<in> offsets (css s) c. 0 - y < sprite_height s + ch) \<and>
      (\<forall>y1 \<in> offsets (css s) c. \<forall>y2 \<in> offsets (css s) c. y1 = y2)"
  proof cases
    case 1
    from inv have d: "\<forall>y \<in> offsets (css s) (canvas s). 0 - y = sprite_height s"
      by (simp add: row_inv_def)
    have "0 - y < sprite_height s + ch" if "y \<in> offsets (css s) (canvas s)" for y
      using d [THEN bspec, OF that] ch by simp
    moreover have "y1 = y2" if "y1 \<in> offsets (css s) (canvas s)" "y2 \<in> offsets (css s) (canvas s)"
      for y1 y2
      using d [THEN bspec, OF that(1)] d [THEN bspec, OF that(2)] by simp
    ultimately show ?thesis
      unfolding 1 by blast
  next
    case 2
    from inv 2 have a: "\<forall>y \<in> offsets (css s) c. 0 - y < sprite_height s"
      and b: "\<forall>y1 \<in> offsets (css s) c. \<forall>y2 \<in> offsets (css s) c. y1 = y2"
      by (simp_all add: row_inv_def row_ok_def)
    have "0 - y < sprite_height s + ch" if "y \<in> offsets (css s) c" for y
      using a [THEN bspec, OF that] ch by simp
    with b show ?thesis
      by blast
  qed
  then show "\<forall>y \<in> offsets (css s) c. 0 - y < sprite_height s + ch"
    and "\<forall>y1 \<in> offsets (css s) c. \<forall>y2 \<in> offsets (css s) c. y1 = y2"
    by blast+
qed

lemma row_ok_seal:
  assumes inv: "row_inv s" and ch: "0 < ch"
  shows "row_ok (seal ch s)"
proof -
  from inv have c: "sorted_wrt (below (css s)) (canvases s)"
    by (simp add: row_inv_def row_ok_def)
  from inv have e: "\<forall>c1 \<in> set (canvases s). below (css s) c1 (canvas s)"
    by (simp add: open_row_below)
  from c e have "sorted_wrt (below (css s)) (canvases s @ [canvas s])"
    by (simp add: sorted_wrt_append)
  with row_ok_sealed_rows [OF inv ch] show ?thesis
    by (simp add: row_ok_def seal_def)
qed

lemma row_ok_seal_twice:
  assumes inv: "row_inv s" and ch: "0 < ch"
  shows "row_ok (seal ch (seal ch s))"
proof -
  from ch have ch2: "0 < ch + ch"
    by simp
  from inv have c: "sorted_wrt (below (css s)) (canvases s)"
    by (simp add: row_inv_def row_ok_def)
  from inv have e: "\<forall>c1 \<in> set (canvases s). below (css s) c1 (canvas s)"
    by (simp add: open_row_below)
  from c e have "sorted_wrt (below (css s)) (canvases s @ [canvas s, canvas s])"
    by (simp add: sorted_wrt_append below_def)
  with row_ok_sealed_rows [OF inv ch2] show ?thesis
    by (simp add: row_ok_def seal_def add.assoc)
qed

lemma place_overflow_eq:
  "place_overflow ch img s = place_fits img (open_group ch (seal ch s))"
  by (simp add: place_overflow_def place_fits_def open_group_def seal_def Let_def)

lemma used_seal [simp]: "used (seal ch s) = used s"
  by (auto simp: used_def seal_def)

lemma used_open_group: "used (open_group ch s) \<subseteq> used s"
  by (auto simp: used_def open_group_def)

lemma used_place_fits [simp]: "used (place_fits img s) = insert (filename img) (used s)"
  by (auto simp: used_def place_fits_def)

lemma used_cur_x [simp]: "used (s\<lparr>cur_x := v\<rparr>) = used s"
  by (simp add: used_def)

lemma used_place_image:
  "used (place_image ch n p s) \<subseteq> insert (filename (snd p)) (used s)"
proof -
  obtain i img where p: "p = (i, img)"
    by (cases p)
  have "used (place_fits img s) \<subseteq> insert (filename img) (used s)"
    by simp
  moreover have "used (place_exact ch n i img s) \<subseteq> insert (filename img) (used s)"
    by (cases "int i = int n - 1") (simp_all add: place_exact_last place_exact_not_last)
  moreover have "used (place_overflow ch img s) \<subseteq> insert (filename img) (used s)"
    using used_open_group [of ch "seal ch s"] by (auto simp: place_overflow_eq)
  ultimately show ?thesis
    by (simp add: p place_image_def)
qed

lemma offsets_Image_new [simp]: "offsets rs (Image_new sz col) = {}"
  by (simp add: offsets_def on_canvas_def)

lemma row_inv_open_group: "row_ok s \<Longrightarrow> row_inv (open_group ch s)"
  by (simp add: row_inv_def row_ok_def open_group_def)

lemma row_inv_place_overflow:
  assumes "row_inv s" "filename img \<notin> used s" "0 < ch"
  shows "row_inv (place_overflow ch img s)"
proof -
  from assms(1,3) have "row_ok (seal ch s)"
    by (rule row_ok_seal)
  then have "row_inv (open_group ch (seal ch s))"
    by (rule row_inv_open_group)
  moreover from assms(2) have "filename img \<notin> used (open_group ch (seal ch s))"
    using used_open_group [of ch "seal ch s"] by auto
  ultimately show ?thesis
    unfolding place_overflow_eq by (rule row_inv_place_fits)
qed

lemma row_inv_place_image:
  assumes "row_inv s" "filename img \<notin> used s" "0 < ch" "int i \<noteq> int n - 1"
  shows "row_inv (place_image ch n (i, img) s)"
  using assms
  by (simp add: place_image_def place_exact_not_last row_inv_place_fits row_inv_place_overflow)

lemma row_ok_last_image:
  assumes "row_inv s" "filename img \<notin> used s" "0 < ch" "int i = int n - 1"
  shows "row_ok (seal ch (place_image ch n (i, img) s))"
proof -
  from assms(1,2) have fits: "row_inv (place_fits img s)"
    by (rule row_inv_place_fits)
  from assms(1-3) have over: "row_inv (place_overflow ch img s)"
    by (rule row_inv_place_overflow)
  from fits assms(3) have "row_ok (seal ch (place_fits img s))"
    by (rule row_ok_seal)
  moreover from fits assms(3) have "row_ok (seal ch (place_exact ch n i img s))"
    by (simp add: place_exact_last [OF assms(4)] seal_cur_x row_ok_seal_twice)
  moreover from over assms(3) have "row_ok (seal ch (place_overflow ch img s))"
    by (rule row_ok_seal)
  ultimately show ?thesis
    by (simp add: place_image_def)
qed

lemma row_inv_fold:
  assumes "row_inv s" "0 < ch"
    and "k + length imgs \<le> m"
    and "distinct (map filename imgs)"
    and "\<forall>img \<in> set imgs. filename img \<notin> used s"
  shows "row_inv (fold (place_image ch (Suc m)) (enumerate k imgs) s) \<and>
         used (fold (place_image ch (Suc m)) (enumerate k imgs) s) \<subseteq> used s \<union> filename ` set imgs"
  using assms
proof (induction imgs arbitrary: s k)
  case Nil
  then show ?case by simp
next
  case (Cons img imgs)
  let ?s = "place_image ch (Suc m) (k, img) s"
  from Cons.prems have "k < m" "filename img \<notin> used s"
    by simp_all
  with Cons.prems(1,2) have inv: "row_inv ?s"
    by (intro row_inv_place_image) simp_all
  have u: "used ?s \<subseteq> insert (filename img) (used s)"
    using used_place_image [of ch "Suc m" "(k, img)" s] by simp
  have fresh: "\<forall>q \<in> set imgs. filename q \<notin> used ?s"
  proof
    fix q
    assume q: "q \<in> set imgs"
    then have "filename q \<in> filename ` set imgs"
      by (rule imageI)
    moreover from Cons.prems(4) have "filename img \<notin> filename ` set imgs"
      by simp
    ultimately have "filename q \<noteq> filename img"
      by metis
    moreover from q Cons.prems(5) have "filename q \<notin> used s"
      by simp
    ultimately show "filename q \<notin> used ?s"
      using u by blast
  qed
  from Cons.prems(3,4) have "Suc k + length imgs \<le> m" "distinct (map filename imgs)"
    by simp_all
  with inv Cons.prems(2) fresh
  have "row_inv (fold (place_image ch (Suc m)) (enumerate (Suc k) imgs) ?s) \<and>
        used (fold (place_image ch (Suc m)) (enumerate (Suc k) imgs) ?s)
          \<subseteq> used ?s \<union> filename ` set imgs"
    by (intro Cons.IH)
  then have "row_inv (fold (place_image ch (Suc m)) (enumerate k (img # imgs)) s)"
    and "used (fold (place_image ch (Suc m)) (enumerate k (img # imgs)) s)
           \<subseteq> used ?s \<union> filename ` set imgs"
    by simp_all
  with u show ?case
    by (simp del: fold_simps enumerate_simps) blast
qed

lemma row_ok_pack_group:
  assumes "row_ok s" "group_valid g" "distinct (map filename (snd g))"
    and "\<forall>img \<in> set (snd g). filename img \<notin> used s"
  shows "row_ok (pack_group g s) \<and> used (pack_group g s) \<subseteq> used s \<union> filename ` set (snd g)"
proof -
  from assms(2) obtain cw ch imgs img where g: "g = ((cw, ch), imgs @ [img])" and ch: "0 < ch"
    and v: "valid_image img"
    by (rule group_valid_snoc)
  let ?s0 = "open_group ch s"
  let ?s1 = "fold (place_image ch (Suc (length imgs))) (enumerate 0 imgs) ?s0"
  let ?s2 = "place_image ch (Suc (length imgs)) (length imgs, img) ?s1"
  have group: "pack_group g s = seal ch ?s2"
    by (simp add: g pack_group_sealed [OF v] place_images_snoc)
  from assms(1) have inv0: "row_inv ?s0"
    by (rule row_inv_open_group)
  have u0: "used ?s0 \<subseteq> used s"
    by (rule used_open_group)
  from assms(3) g have d: "distinct (map filename imgs)" "filename img \<notin> filename ` set imgs"
    by simp_all
  from assms(4) g u0 have f0: "\<forall>i \<in> set imgs. filename i \<notin> used ?s0" "filename img \<notin> used ?s0"
    by auto
  from inv0 ch d(1) f0(1) have "row_inv ?s1 \<and> used ?s1 \<subseteq> used ?s0 \<union> filename ` set imgs"
    by (intro row_inv_fold) simp_all
  then have inv1: "row_inv ?s1" and u1: "used ?s1 \<subseteq> used ?s0 \<union> filename ` set imgs"
    by simp_all
  from u1 d(2) f0(2) have f1: "filename img \<notin> used ?s1"
    by blast
  from inv1 f1 ch have "row_ok (seal ch ?s2)"
    by (rule row_ok_last_image) simp
  moreover have "used (seal ch ?s2) \<subseteq> used s \<union> filename ` set (snd g)"
    using used_place_image [of ch "Suc (length imgs)" "(length imgs, img)" ?s1] u1 u0
    by (auto simp: g)
  ultimately show ?thesis
    by (simp add: group)
qed

lemma row_ok_pack_groups:
  assumes "row_ok s" "list_all group_valid gs"
    and "distinct (map filename (concat (map snd gs)))"
    and "\<forall>img \<in> set (concat (map snd gs)). filename img \<notin> used s"
  shows "row_ok (pack_groups gs s)"
  using assms
proof (induction gs arbitrary: s)
  case Nil
  then show ?case by (simp add: pack_groups_def)
next
  case (Cons g gs)
  from Cons.prems have "row_ok s" "group_valid g" "distinct (map filename (snd g))"
    "\<forall>img \<in> set (snd g). filename img \<notin> used s"
    by simp_all
  then have "row_ok (pack_group g s) \<and> used (pack_group g s) \<subseteq> used s \<union> filename ` set (snd g)"
    by (rule row_ok_pack_group)
  then have ok: "row_ok (pack_group g s)"
    and u: "used (pack_group g s) \<subseteq> used s \<union> filename ` set (snd g)"
    by simp_all
  have fresh: "\<forall>img \<in> set (concat (map snd gs)). filename img \<notin> used (pack_group g s)"
  proof
    fix img
    assume img: "img \<in> set (concat (map snd gs))"
    then have "filename img \<in> filename ` set (concat (map snd gs))"
      by (rule imageI)
    moreover from Cons.prems(3)
    have "filename ` set (snd g) \<inter> filename ` set (concat (map snd gs)) = {}"
      by simp
    ultimately have "filename img \<notin> filename ` set (snd g)"
      by blast
    moreover from img Cons.prems(4) have "filename img \<notin> used s"
      by simp
    ultimately show "filename img \<notin> used (pack_group g s)"
      using u by blast
  qed
  from Cons.prems(2,3) have "list_all group_valid gs" "distinct (map filename (concat (map snd gs)))"
    by simp_all
  with ok fresh have "row_ok (pack_groups gs (pack_group g s))"
    by (intro Cons.IH)
  then show ?case
    by (simp add: pack_groups_def)
qed

lemma distinct_names_size_groups:
  assumes "distinct (map filename files)"
  shows "distinct (map filename (concat (map snd (size_groups files))))"
proof -
  have "mset (map filename (concat (map snd (size_groups files)))) = mset (map filename files)"
    by (simp add: mset_size_groups)
  with assms show ?thesis
    by (metis mset_eq_imp_distinct_iff)
qed

lemma row_ok_pack:
  assumes "list_all valid_image files" "distinct (map filename files)"
  shows "row_ok (pack files)"
  unfolding pack_def
proof (rule row_ok_pack_groups)
  show "row_ok init_packer"
    by (simp add: row_ok_def init_packer_def)
  from assms(1) show "list_all group_valid (size_groups files)"
    by (rule group_valid_size_groups)
  from assms(2) show "distinct (map filename (concat (map snd (size_groups files))))"
    by (rule distinct_names_size_groups)
  show "\<forall>img \<in> set (concat (map snd (size_groups files))). filename img \<notin> used init_packer"
    by (simp add: used_def init_packer_def)
qed

subsection \<open>Every rule has its canvas\<close>

lemma covered_ok_imp_inv: "covered_ok s \<Longrightarrow> covered_inv s"
  by (auto simp: covered_ok_def covered_inv_def)

lemma covered_inv_cur_x [simp]: "covered_inv (s\<lparr>cur_x := v\<rparr>) = covered_inv s"
  by (simp add: covered_inv_def)

lemma covered_inv_place_fits: "covered_inv s \<Longrightarrow> covered_inv (place_fits img s)"
  by (auto simp: covered_inv_def place_fits_def)

lemma covered_ok_seal: "covered_inv s \<Longrightarrow> covered_ok (seal ch s)"
  by (auto simp: covered_inv_def covered_ok_def seal_def)

lemma covered_inv_open_group: "covered_ok s \<Longrightarrow> covered_inv (open_group ch s)"
  by (auto simp: covered_inv_def covered_ok_def open_group_def)

lemma covered_inv_place_image:
  assumes "covered_inv s"
  shows "covered_inv (place_image ch n p s)"
proof -
  obtain i img where p: "p = (i, img)"
    by (cases p)
  from assms have fits: "covered_inv (place_fits img s)"
    by (rule covered_inv_place_fits)
  have exact: "covered_inv (place_exact ch n i img s)"
  proof (cases "int i = int n - 1")
    case True
    from fits have "covered_inv (seal ch (place_fits img s))"
      by (rule covered_ok_imp_inv [OF covered_ok_seal])
    with True show ?thesis
      by (simp add: place_exact_last)
  next
    case False
    with fits show ?thesis
      by (simp add: place_exact_not_last)
  qed
  from assms have "covered_inv (open_group ch (seal ch s))"
    by (rule covered_inv_open_group [OF covered_ok_seal])
  then have "covered_inv (place_overflow ch img s)"
    unfolding place_overflow_eq by (rule covered_inv_place_fits)
  with fits exact show ?thesis
    by (simp add: p place_image_def)
qed

lemma covered_inv_fold:
  "covered_inv s \<Longrightarrow> covered_inv (fold (place_image ch n) ps s)"
  by (induction ps arbitrary: s) (simp_all add: covered_inv_place_image)

lemma covered_ok_pack_group:
  assumes "covered_ok s" "group_valid g"
  shows "covered_ok (pack_group g s)"
proof -
  from assms(2) obtain cw ch imgs img where g: "g = ((cw, ch), imgs @ [img])"
    and v: "valid_image img"
    by (rule group_valid_snoc)
  from assms(1) have "covered_inv (place_images ch (imgs @ [img]) (open_group ch s))"
    unfolding place_images_def by (rule covered_inv_fold [OF covered_inv_open_group])
  then have "covered_ok (seal ch (place_images ch (imgs @ [img]) (open_group ch s)))"
    by (rule covered_ok_seal)
  then show ?thesis
    by (simp add: g pack_group_sealed [OF v])
qed

lemma covered_ok_pack_groups:
  "covered_ok s \<Longrightarrow> list_all group_valid gs \<Longrightarrow> covered_ok (pack_groups gs s)"
  unfolding pack_groups_def
  by (induction gs arbitrary: s) (simp_all add: covered_ok_pack_group)

lemma covered_ok_pack: "list_all valid_image files \<Longrightarrow> covered_ok (pack files)"
  unfolding pack_def
  by (intro covered_ok_pack_groups group_valid_size_groups)
     (simp_all add: covered_ok_def init_packer_def)

subsection \<open>The rows of different canvases\<close>

text \<open>
  A rule belongs to the canvas on which the image of its name is pasted. For unique names,
  positive heights and positive widths below 768: all rules of one canvas carry the same
  vertical offset, the rules of a canvas of the list lie strictly below the rules of
  every different canvas before it in the list, and every rule belongs to a canvas of the
  list. Nothing is said here of two places of the list that hold the same canvas.
\<close>

lemma rows_of_different_canvases:
  assumes "list_all valid_image files" "distinct (map filename files)"
  shows "(\<forall>c \<in> set (canvases (pack files)).
            \<forall>r1 \<in> set (css (pack files)). \<forall>r2 \<in> set (css (pack files)).
              on_canvas r1 c \<and> on_canvas r2 c \<longrightarrow> position_y r1 = position_y r2) \<and>
         (\<forall>i j. i < j \<and> j < length (canvases (pack files)) \<and>
                canvases (pack files) ! i \<noteq> canvases (pack files) ! j \<longrightarrow>
            (\<forall>r1 \<in> set (css (pack files)). \<forall>r2 \<in> set (css (pack files)).
               on_canvas r1 (canvases (pack files) ! i) \<and>
               on_canvas r2 (canvases (pack files) ! j) \<longrightarrow>
               position_y r2 < position_y r1)) \<and>
         (\<forall>r \<in> set (css (pack files)). \<exists>c \<in> set (canvases (pack files)). on_canvas r c)"
proof -
  let ?rs = "css (pack files)" and ?cs = "canvases (pack files)"
  from assms(1) have "covered_ok (pack files)"
    by (rule covered_ok_pack)
  then have cov: "\<forall>r \<in> set ?rs. \<exists>c \<in> set ?cs. on_canvas r c"
    by (auto simp: covered_ok_def on_canvas_def)
  from assms have ok: "row_ok (pack files)"
    by (rule row_ok_pack)
  have y: "position_y r \<in> offsets ?rs c" if "r \<in> set ?rs" "on_canvas r c" for r c
    using that by (simp add: offsets_def)
  have same: "position_y r1 = position_y r2"
    if "c \<in> set ?cs" "r1 \<in> set ?rs" "r2 \<in> set ?rs" "on_canvas r1 c" "on_canvas r2 c" for c r1 r2
  proof -
    from ok that(1) have "\<forall>y1 \<in> offsets ?rs c. \<forall>y2 \<in> offsets ?rs c. y1 = y2"
      by (simp add: row_ok_def)
    with y [OF that(2,4)] y [OF that(3,5)] show ?thesis
      by blast
  qed
  have later: "position_y r2 < position_y r1"
    if "i < j" "j < length ?cs" "?cs ! i \<noteq> ?cs ! j" "r1 \<in> set ?rs" "r2 \<in> set ?rs"
      "on_canvas r1 (?cs ! i)" "on_canvas r2 (?cs ! j)" for i j r1 r2
  proof -
    from ok have "sorted_wrt (below ?rs) ?cs"
      by (simp add: row_ok_def)
    with that(1,2) have "below ?rs (?cs ! i) (?cs ! j)"
      by (simp add: sorted_wrt_iff_nth_less)
    with that(3) have "\<forall>y1 \<in> offsets ?rs (?cs ! i). \<forall>y2 \<in> offsets ?rs (?cs ! j). y2 < y1"
      by (simp add: below_def)
    with y [OF that(4,6)] y [OF that(5,7)] show ?thesis
      by blast
  qed
  from same later cov show ?thesis
    by blast
qed

section \<open>The claims\<close>

text \<open>
  C1. The claim: after the last image of a group the trailing canvas is appended only if
  it was not appended already, so a group whose last image fills its row exactly gives one
  canvas for that row, and in the scenario of three images (\<open>a\<close> and \<open>b\<close> of 384 by 50,
  \<open>c\<close> of 10 by 50) the rule of \<open>c\<close> has the vertical offset \<open>-50\<close>. The code does
  otherwise: the branch of the exact fit appends the canvas for the last image and leaves
  \<^verbatim>\<open>x\<close> at 384, the test \<^verbatim>\<open>x < sprite_width\<close> after the loop holds, and the same
  canvas is appended a second time. The row of \<open>a\<close> and \<open>b\<close> is in the sprite twice,
  the sprite is 150 pixels high and \<open>c\<close> has the offset \<open>-100\<close>.
\<close>

theorem exact_fit_last_sealed_twice:
  "css (pack [png ''a'' 384 50, png ''b'' 384 50, png ''c'' 10 50]) =
     [emit (png ''a'' 384 50) 0 0, emit (png ''b'' 384 50) (- 384) 0,
      emit (png ''c'' 10 50) 0 (- 100)] \<and>
   map rpastes (canvases (pack [png ''a'' 384 50, png ''b'' 384 50, png ''c'' 10 50])) =
     [[(png ''a'' 384 50, 0, 0), (png ''b'' 384 50, 384, 0)],
      [(png ''a'' 384 50, 0, 0), (png ''b'' 384 50, 384, 0)],
      [(png ''c'' 10 50, 0, 0)]] \<and>
   sprite_height (pack [png ''a'' 384 50, png ''b'' 384 50, png ''c'' 10 50]) = 150"
proof -
  have c1: "css (pack [png ''a'' 384 50, png ''b'' 384 50, png ''c'' 10 50]) =
     [emit (png ''a'' 384 50) 0 0, emit (png ''b'' 384 50) (- 384) 0,
      emit (png ''c'' 10 50) 0 (- 100)]"
    by code_simp
  have c2: "map rpastes (canvases (pack [png ''a'' 384 50, png ''b'' 384 50, png ''c'' 10 50])) =
     [[(png ''a'' 384 50, 0, 0), (png ''b'' 384 50, 384, 0)],
      [(png ''a'' 384 50, 0, 0), (png ''b'' 384 50, 384, 0)],
      [(png ''c'' 10 50, 0, 0)]]"
    by code_simp
  have c3: "sprite_height (pack [png ''a'' 384 50, png ''b'' 384 50, png ''c'' 10 50]) = 150"
    by code_simp
  from c1 c2 c3 show ?thesis by blast
qed

text \<open>
  C2, as stated: an input with an image of width 768 or more fails with an error for
  the oversized image, and neither a sprite nor a rule is produced. The code has no such
  check. An image of 800 by 50 alone is packed: the run ends with a sprite image of 768
  by 50 that holds one empty canvas, and with the rule of the image.
\<close>

theorem oversized_is_packed:
  "SpriteCreator [png ''a'' 800 50] =
     Inr \<lparr>sprite_image =
            \<lparr>rsize = (768, 50), rcolor = (0, 0, 0, 0),
             rpastes = [(\<lparr>rsize = (768, 50), rcolor = (0, 0, 0, 0), rpastes = []\<rparr>, 0, 0)]\<rparr>,
          css_lines = [''.a {'' @ [CHR 0x0A] @ ''  background-position: 0 -50px;'' @ [CHR 0x0A] @
                       ''  width: 800px;'' @ [CHR 0x0A] @ ''  height: 50px;'' @ [CHR 0x0A] @
                       ''}'' @ [CHR 0x0A]]\<rparr>"
  by code_simp

text \<open>
  C2, as the code has it: an input with an image of width 768 or more raises no error.
  The run ends with a sprite image and with one rule for every image of the input, the
  oversized image among them.
\<close>

theorem oversized_still_packed:
  "img \<in> set files \<Longrightarrow> sprite_width \<le> fst (img_size img) \<Longrightarrow>
   SpriteCreator files =
     Inr \<lparr>sprite_image = compose (pack files),
          css_lines = sort (map sprite_css (css (pack files)))\<rparr> \<and>
   length (css (pack files)) = length files \<and>
   (\<exists>r \<in> set (css (pack files)). rule_of r img)"
proof -
  assume img: "img \<in> set files"
  then have "files \<noteq> []"
    by auto
  then have "SpriteCreator files =
     Inr \<lparr>sprite_image = compose (pack files),
          css_lines = sort (map sprite_css (css (pack files)))\<rparr>"
    by (simp add: SpriteCreator_def Let_def)
  with img show ?thesis
    by (simp add: length_css_pack rule_for_image)
qed

theorem oversized_still_packed_witness:
  "png ''a'' 800 50 \<in> set [png ''a'' 800 50] \<and>
   sprite_width \<le> fst (img_size (png ''a'' 800 50)) \<and>
   SpriteCreator [png ''a'' 800 50] =
     Inr \<lparr>sprite_image = compose (pack [png ''a'' 800 50]),
          css_lines = sort (map sprite_css (css (pack [png ''a'' 800 50])))\<rparr> \<and>
   length (css (pack [png ''a'' 800 50])) = length [png ''a'' 800 50] \<and>
   (\<exists>r \<in> set (css (pack [png ''a'' 800 50])). rule_of r (png ''a'' 800 50))"
proof -
  have h1: "png ''a'' 800 50 \<in> set [png ''a'' 800 50]"
    by simp
  have h2: "sprite_width \<le> fst (img_size (png ''a'' 800 50))"
    by (simp add: sprite_width_def png_def)
  from h1 h2 oversized_still_packed [OF h1 h2] show ?thesis
    by blast
qed


text \<open>
  C4. When an image fills the row exactly (\<^verbatim>\<open>x + image_width == sprite_width\<close>) and is
  not the last of its list, the cursor is advanced by the width of the image, which
  leaves it at \<^verbatim>\<open>sprite_width\<close>, and the next image, whatever its (positive) width,
  takes the \<^verbatim>\<open>else\<close> branch.
\<close>

theorem exact_fit_not_last:
  "cur_x s + fst (img_size img) = sprite_width \<Longrightarrow> int index \<noteq> int n - 1 \<Longrightarrow>
   0 < fst (img_size img') \<Longrightarrow>
   cur_x (place_image ch n (index, img) s) = cur_x s + fst (img_size img) \<and>
   cur_x (place_image ch n (index, img) s) = sprite_width \<and>
   place_image ch n (index', img') (place_image ch n (index, img) s) =
     place_overflow ch img' (place_image ch n (index, img) s)"
  by (simp add: place_image_def place_exact_def Let_def)

theorem exact_fit_not_last_witness:
  "cur_x (place_fits (png ''a'' 384 50) (open_group 50 init_packer)) +
     fst (img_size (png ''b'' 384 50)) = sprite_width \<and>
   int 1 \<noteq> int 3 - 1 \<and>
   0 < fst (img_size (png ''c'' 384 50)) \<and>
   cur_x (place_image 50 3 (1, png ''b'' 384 50)
            (place_fits (png ''a'' 384 50) (open_group 50 init_packer))) =
     cur_x (place_fits (png ''a'' 384 50) (open_group 50 init_packer)) +
     fst (img_size (png ''b'' 384 50)) \<and>
   cur_x (place_image 50 3 (1, png ''b'' 384 50)
            (place_fits (png ''a'' 384 50) (open_group 50 init_packer))) = sprite_width \<and>
   place_image 50 3 (2, png ''c'' 384 50)
     (place_image 50 3 (1, png ''b'' 384 50)
        (place_fits (png ''a'' 384 50) (open_group 50 init_packer))) =
   place_overflow 50 (png ''c'' 384 50)
     (place_image 50 3 (1, png ''b'' 384 50)
        (place_fits (png ''a'' 384 50) (open_group 50 init_packer)))"
proof -
  have h1: "cur_x (place_fits (png ''a'' 384 50) (open_group 50 init_packer)) +
     fst (img_size (png ''b'' 384 50)) = sprite_width"
    by (simp add: place_fits_def open_group_def png_def sprite_width_def)
  have h2: "int 1 \<noteq> int 3 - 1"
    by simp
  have h3: "0 < fst (img_size (png ''c'' 384 50))"
    by (simp add: png_def)
  from h1 h2 h3 exact_fit_not_last [OF h1 h2 h3, of 50 2] show ?thesis
    by blast
qed

text \<open>
  C5. In the \<^verbatim>\<open>else\<close> branch (\<^verbatim>\<open>x + image_width > sprite_width\<close>) the open canvas is
  appended and \<^verbatim>\<open>sprite_height\<close> grows by the canvas height before the rule of the
  image is emitted, so the rule carries the height already advanced. For the two images
  \<open>a\<close> and \<open>b\<close> of 700 by 50: \<open>a\<close> is at \<open>x = 0\<close> with the offsets \<open>(0, 0)\<close>,
  \<open>b\<close> is at \<open>x = 0\<close> of a second canvas with the vertical offset \<open>-50\<close>, and the
  sprite is 100 pixels high.
\<close>

theorem overflow_seals_first:
  "(sprite_width < cur_x s + fst (img_size img) \<longrightarrow>
      place_image ch n (index, img) s =
        s\<lparr>canvases := canvases s @ [canvas s],
          sprite_height := sprite_height s + ch,
          canvas := paste (Image_new (sprite_width, ch) transparent) img (0, 0),
          cur_x := fst (img_size img),
          css := css s @ [emit img 0 (0 - (sprite_height s + ch))]\<rparr>) \<and>
   css (pack [png ''a'' 700 50, png ''b'' 700 50]) =
     [emit (png ''a'' 700 50) 0 0, emit (png ''b'' 700 50) 0 (- 50)] \<and>
   map rpastes (canvases (pack [png ''a'' 700 50, png ''b'' 700 50])) =
     [[(png ''a'' 700 50, 0, 0)], [(png ''b'' 700 50, 0, 0)]] \<and>
   sprite_height (pack [png ''a'' 700 50, png ''b'' 700 50]) = 100 \<and>
   rsize (compose (pack [png ''a'' 700 50, png ''b'' 700 50])) = (768, 100)"
proof -
  have general: "sprite_width < cur_x s + fst (img_size img) \<longrightarrow>
      place_image ch n (index, img) s =
        s\<lparr>canvases := canvases s @ [canvas s],
          sprite_height := sprite_height s + ch,
          canvas := paste (Image_new (sprite_width, ch) transparent) img (0, 0),
          cur_x := fst (img_size img),
          css := css s @ [emit img 0 (0 - (sprite_height s + ch))]\<rparr>"
    by (simp add: place_image_def place_overflow_def Let_def)
  have c1: "css (pack [png ''a'' 700 50, png ''b'' 700 50]) =
     [emit (png ''a'' 700 50) 0 0, emit (png ''b'' 700 50) 0 (- 50)]"
    by code_simp
  have c2: "map rpastes (canvases (pack [png ''a'' 700 50, png ''b'' 700 50])) =
     [[(png ''a'' 700 50, 0, 0)], [(png ''b'' 700 50, 0, 0)]]"
    by code_simp
  have c3: "sprite_height (pack [png ''a'' 700 50, png ''b'' 700 50]) = 100"
    by code_simp
  have c4: "rsize (compose (pack [png ''a'' 700 50, png ''b'' 700 50])) = (768, 100)"
    by code_simp
  from general c1 c2 c3 c4 show ?thesis by blast
qed

theorem overflow_seals_first_witness:
  "sprite_width < cur_x (place_fits (png ''a'' 700 50) (open_group 50 init_packer)) +
                  fst (img_size (png ''b'' 700 50)) \<and>
   place_image 50 2 (1, png ''b'' 700 50)
       (place_fits (png ''a'' 700 50) (open_group 50 init_packer)) =
     (place_fits (png ''a'' 700 50) (open_group 50 init_packer))
       \<lparr>canvases := canvases (place_fits (png ''a'' 700 50) (open_group 50 init_packer)) @
                      [canvas (place_fits (png ''a'' 700 50) (open_group 50 init_packer))],
        sprite_height :=
          sprite_height (place_fits (png ''a'' 700 50) (open_group 50 init_packer)) + 50,
        canvas := paste (Image_new (sprite_width, 50) transparent) (png ''b'' 700 50) (0, 0),
        cur_x := fst (img_size (png ''b'' 700 50)),
        css := css (place_fits (png ''a'' 700 50) (open_group 50 init_packer)) @
                 [emit (png ''b'' 700 50) 0
                    (0 - (sprite_height (place_fits (png ''a'' 700 50)
                                           (open_group 50 init_packer)) + 50))]\<rparr>"
proof -
  have h: "sprite_width < cur_x (place_fits (png ''a'' 700 50) (open_group 50 init_packer)) +
                  fst (img_size (png ''b'' 700 50))"
    by (simp add: place_fits_def open_group_def png_def sprite_width_def)
  from h overflow_seals_first [where s = "place_fits (png ''a'' 700 50) (open_group 50 init_packer)"
      and img = "png ''b'' 700 50" and ch = 50 and n = 2 and index = 1]
  show ?thesis by blast
qed

text \<open>
  C6. For every input whose images have positive widths and heights and widths below
  768: the horizontal span of every rule, from \<open>x\<close> to \<open>x\<close> plus the width, is non-empty
  and lies between 0 and 768, and the spans of two rules with the same vertical offset do
  not overlap.
\<close>

theorem spans_within_and_disjoint:
  assumes "list_all valid_image files"
  shows "(\<forall>r \<in> set (css (pack files)).
            0 \<le> left_edge r \<and> right_edge r \<le> sprite_width \<and> left_edge r < right_edge r) \<and>
         (\<forall>i j. i < length (css (pack files)) \<and> j < length (css (pack files)) \<and> i \<noteq> j \<and>
                position_y (css (pack files) ! i) = position_y (css (pack files) ! j) \<longrightarrow>
                right_edge (css (pack files) ! i) \<le> left_edge (css (pack files) ! j) \<or>
                right_edge (css (pack files) ! j) \<le> left_edge (css (pack files) ! i))"
proof -
  from assms have ok: "span_ok (pack files)"
    by (rule span_ok_pack)
  have apart: "apart (css (pack files) ! i) (css (pack files) ! j)"
    if "i < j" "j < length (css (pack files))" for i j
    using ok that by (simp add: span_ok_def sorted_wrt_iff_nth_less)
  have pos: "left_edge r < right_edge r" if r: "r \<in> set (css (pack files))" for r
  proof -
    from r obtain k where k: "k < length (css (pack files))" "css (pack files) ! k = r"
      unfolding in_set_conv_nth by blast
    let ?imgs = "concat (map snd (size_groups files))"
    from css_pack [of files] k have "rule_of r (?imgs ! k)" "k < length ?imgs"
      by (auto simp: list_all2_conv_all_nth)
    moreover from this(2) have "?imgs ! k \<in> set files"
      using mset_size_groups [of files] by (metis mset_eq_setD nth_mem)
    ultimately show ?thesis
      using assms by (auto simp: rule_of_def list_all_iff valid_image_def right_edge_def)
  qed
  have "right_edge (css (pack files) ! i) \<le> left_edge (css (pack files) ! j) \<or>
        right_edge (css (pack files) ! j) \<le> left_edge (css (pack files) ! i)"
    if "i < length (css (pack files))" "j < length (css (pack files))" "i \<noteq> j"
      "position_y (css (pack files) ! i) = position_y (css (pack files) ! j)" for i j
  proof (cases "i < j")
    case True
    with that apart [of i j] show ?thesis by (simp add: apart_def)
  next
    case False
    with that have "j < i" by simp
    with that apart [of j i] show ?thesis by (simp add: apart_def)
  qed
  with ok pos show ?thesis
    by (simp add: span_ok_def)
qed

theorem spans_within_and_disjoint_witness:
  "list_all valid_image [png ''a'' 384 50, png ''b'' 384 50, png ''c'' 10 50] \<and>
   0 \<le> left_edge (css (pack [png ''a'' 384 50, png ''b'' 384 50, png ''c'' 10 50]) ! 1) \<and>
   right_edge (css (pack [png ''a'' 384 50, png ''b'' 384 50, png ''c'' 10 50]) ! 1)
     \<le> sprite_width \<and>
   (right_edge (css (pack [png ''a'' 384 50, png ''b'' 384 50, png ''c'' 10 50]) ! 0)
      \<le> left_edge (css (pack [png ''a'' 384 50, png ''b'' 384 50, png ''c'' 10 50]) ! 1) \<or>
    right_edge (css (pack [png ''a'' 384 50, png ''b'' 384 50, png ''c'' 10 50]) ! 1)
      \<le> left_edge (css (pack [png ''a'' 384 50, png ''b'' 384 50, png ''c'' 10 50]) ! 0))"
proof -
  let ?F = "[png ''a'' 384 50, png ''b'' 384 50, png ''c'' 10 50]"
  have h: "list_all valid_image ?F"
    by (simp add: valid_image_def png_def sprite_width_def)
  have e: "css (pack ?F) =
     [emit (png ''a'' 384 50) 0 0, emit (png ''b'' 384 50) (- 384) 0,
      emit (png ''c'' 10 50) 0 (- 100)]"
    by code_simp
  note t = spans_within_and_disjoint [OF h]
  from t have within: "0 \<le> left_edge (css (pack ?F) ! 1) \<and>
      right_edge (css (pack ?F) ! 1) \<le> sprite_width"
    by (simp add: e)
  have "0 < length (css (pack ?F)) \<and> 1 < length (css (pack ?F)) \<and> (0::nat) \<noteq> 1 \<and>
      position_y (css (pack ?F) ! 0) = position_y (css (pack ?F) ! 1)"
    by (simp add: e emit_def)
  with t [THEN conjunct2, rule_format, of 0 1]
  have "right_edge (css (pack ?F) ! 0) \<le> left_edge (css (pack ?F) ! 1) \<or>
        right_edge (css (pack ?F) ! 1) \<le> left_edge (css (pack ?F) ! 0)"
    by blast
  with h within show ?thesis
    by blast
qed


text \<open>
  C8. The identifiers of the images of an input are unique (the names of the files of one
  directory). Then every permutation of the input gives the same packing and the same
  run: the same rules, the same canvases, the same sprite image and sorted lines. In every
  group the images are in ascending order of their names, and the groups are in ascending
  order of their heights.
\<close>

theorem permutation_invariance:
  assumes "distinct (map filename xs)" and "mset xs = mset ys"
  shows "SpriteCreator ys = SpriteCreator xs \<and> pack ys = pack xs \<and>
         (\<forall>(k, v) \<in> set (size_groups ys). sorted (map filename v)) \<and>
         sorted (map (\<lambda>(k, v). snd k) (size_groups ys))"
proof -
  from assms have "size_groups xs = size_groups ys"
    by (rule size_groups_perm)
  then have p: "pack ys = pack xs"
    by (simp add: pack_def)
  from assms(2) have "length xs = length ys"
    by (rule mset_eq_length)
  with p have "SpriteCreator ys = SpriteCreator xs"
    by (simp add: SpriteCreator_def)
  with p size_groups_sorted [of ys] show ?thesis
    by blast
qed

theorem permutation_invariance_witness:
  "distinct (map filename [png ''b'' 10 50, png ''a'' 20 50, png ''c'' 10 50]) \<and>
   mset [png ''b'' 10 50, png ''a'' 20 50, png ''c'' 10 50] =
     mset [png ''a'' 20 50, png ''b'' 10 50, png ''c'' 10 50] \<and>
   SpriteCreator [png ''a'' 20 50, png ''b'' 10 50, png ''c'' 10 50] =
     SpriteCreator [png ''b'' 10 50, png ''a'' 20 50, png ''c'' 10 50] \<and>
   pack [png ''a'' 20 50, png ''b'' 10 50, png ''c'' 10 50] =
     pack [png ''b'' 10 50, png ''a'' 20 50, png ''c'' 10 50] \<and>
   sorted (map (\<lambda>(k, v). snd k) (size_groups [png ''a'' 20 50, png ''b'' 10 50, png ''c'' 10 50]))"
proof -
  have h1: "distinct (map filename [png ''b'' 10 50, png ''a'' 20 50, png ''c'' 10 50])"
    by (simp add: png_def)
  have h2: "mset [png ''b'' 10 50, png ''a'' 20 50, png ''c'' 10 50] =
     mset [png ''a'' 20 50, png ''b'' 10 50, png ''c'' 10 50]"
    by (simp add: add_mset_commute)
  from h1 h2 permutation_invariance [OF h1 h2] show ?thesis
    by blast
qed

text \<open>
  C9. The height of the sprite image is the sum of the heights of the appended canvases;
  the sprite image is a transparent raster of width 768 on which the canvases are pasted
  in the order of the list, each at \<open>x = 0\<close> and at the total height of the canvases
  before it.
\<close>

theorem atlas_stacks_canvases:
  "sprite_width = 768 \<and> transparent = (0, 0, 0, 0) \<and>
   sprite_height (pack files) = heights (canvases (pack files)) \<and>
   compose (pack files) =
     \<lparr>rsize = (sprite_width, heights (canvases (pack files))),
      rcolor = transparent,
      rpastes = map (\<lambda>k. (canvases (pack files) ! k, 0, heights (take k (canvases (pack files)))))
                  [0..<length (canvases (pack files))]\<rparr>"
  by (simp add: compose_def fold_paste_canvas heights_pack [symmetric] Image_new_def
      sprite_width_def transparent_def)

text \<open>
  C10. Take a group whose last image is placed by the \<^verbatim>\<open>else\<close> branch and is 768 wide
  or wider. After that image \<^verbatim>\<open>x\<close> is its width, the test \<^verbatim>\<open>x < sprite_width\<close> after
  the loop fails, and the group ends in the state the branch left: the canvas that holds
  the image is not appended. No canvas of the list, and so no canvas pasted on the sprite
  image, holds the image, while its rule is in the list of rules. (The images of the input
  are distinct, so that the image is told from the others.)
\<close>

theorem oversized_last_image_dropped:
  assumes "distinct files"
    and "size_groups files = pre @ ((cw, ch), imgs @ [img]) # post"
    and "sprite_width < cur_x (before_last pre ch imgs) + fst (img_size img)"
    and "sprite_width \<le> fst (img_size img)"
  shows "\<not> cur_x (place_image ch (Suc (length imgs)) (length imgs, img) (before_last pre ch imgs))
             < sprite_width \<and>
         pack_group ((cw, ch), imgs @ [img]) (pack_groups pre init_packer) =
           place_overflow ch img (before_last pre ch imgs) \<and>
         (\<forall>c \<in> set (canvases (pack files)). img \<notin> pasted c) \<and>
         (\<forall>c \<in> pasted (compose (pack files)). img \<notin> pasted c) \<and>
         emit img 0 (0 - (sprite_height (before_last pre ch imgs) + ch)) \<in> set (css (pack files))"
proof -
  let ?sA = "pack_groups pre init_packer"
  let ?s1 = "before_last pre ch imgs"
  let ?s2 = "place_image ch (Suc (length imgs)) (length imgs, img) ?s1"
  from assms(3) have s2: "?s2 = place_overflow ch img ?s1"
    by (simp add: place_image_def)
  then have x2: "cur_x ?s2 = fst (img_size img)"
    by (simp add: place_overflow_def Let_def)
  with assms(4) have open2: "\<not> cur_x ?s2 < sprite_width"
    by simp
  have "place_images ch (imgs @ [img]) (open_group ch ?sA) = ?s2"
    by (simp add: place_images_snoc before_last_def)
  with open2 have group: "pack_group ((cw, ch), imgs @ [img]) ?sA = ?s2"
    by (simp add: pack_group_def Let_def)
  then have final: "pack files = pack_groups post ?s2"
    by (simp add: pack_def assms(2) pack_groups_append)
  have "sealed_pasted ?sA \<subseteq> set (concat (map snd pre))"
    using sealed_pasted_pack_groups [of pre init_packer]
    by (simp add: sealed_pasted_def init_packer_def)
  moreover have "all_pasted ?s1 \<subseteq> sealed_pasted ?sA \<union> set imgs"
  proof -
    have "snd ` set (enumerate 0 imgs) = set imgs"
      by (metis list.set_map map_snd_enumerate)
    with all_pasted_fold [of ch "Suc (length imgs)" "enumerate 0 imgs" "open_group ch ?sA"]
    show ?thesis
      by (simp add: before_last_def)
  qed
  moreover have "sealed_pasted ?s2 = all_pasted ?s1"
    by (auto simp: s2 place_overflow_def Let_def sealed_pasted_def all_pasted_def)
  moreover have "sealed_pasted (pack files) \<subseteq> sealed_pasted ?s2 \<union> set (concat (map snd post))"
    unfolding final by (rule sealed_pasted_pack_groups)
  ultimately have sub: "sealed_pasted (pack files)
      \<subseteq> set (concat (map snd pre)) \<union> set imgs \<union> set (concat (map snd post))"
    by blast
  from assms(1) have "distinct (concat (map snd (size_groups files)))"
    by (rule distinct_size_groups)
  then have "img \<notin> set (concat (map snd pre)) \<union> set imgs \<union> set (concat (map snd post))"
    by (auto simp: assms(2))
  with sub have notin: "img \<notin> sealed_pasted (pack files)"
    by blast
  then have c1: "\<forall>c \<in> set (canvases (pack files)). img \<notin> pasted c"
    by (simp add: sealed_pasted_def)
  have "pasted (compose (pack files)) = set (canvases (pack files))"
    unfolding pasted_def by (metis canvases_of_compose list.set_map)
  with c1 have c2: "\<forall>c \<in> pasted (compose (pack files)). img \<notin> pasted c"
    by simp
  have "emit img 0 (0 - (sprite_height ?s1 + ch)) \<in> set (css ?s2)"
    by (simp add: s2 place_overflow_def Let_def)
  moreover obtain rs where "css (pack_groups post ?s2) = css ?s2 @ rs"
    using css_pack_groups by blast
  ultimately have c3: "emit img 0 (0 - (sprite_height ?s1 + ch)) \<in> set (css (pack files))"
    by (simp add: final)
  from open2 group s2 c1 c2 c3 show ?thesis
    by simp
qed

theorem oversized_last_image_dropped_witness:
  "distinct [png ''a'' 768 50, png ''b'' 768 50] \<and>
   size_groups [png ''a'' 768 50, png ''b'' 768 50] =
     [] @ ((768, 50), [png ''a'' 768 50] @ [png ''b'' 768 50]) # [] \<and>
   sprite_width < cur_x (before_last [] 50 [png ''a'' 768 50]) + fst (img_size (png ''b'' 768 50)) \<and>
   sprite_width \<le> fst (img_size (png ''b'' 768 50)) \<and>
   \<not> cur_x (place_image 50 (Suc (length [png ''a'' 768 50])) (length [png ''a'' 768 50], png ''b'' 768 50)
            (before_last [] 50 [png ''a'' 768 50])) < sprite_width \<and>
   png ''b'' 768 50 \<notin> pasted (canvases (pack [png ''a'' 768 50, png ''b'' 768 50]) ! 0) \<and>
   emit (png ''b'' 768 50) 0 (0 - (sprite_height (before_last [] 50 [png ''a'' 768 50]) + 50))
     \<in> set (css (pack [png ''a'' 768 50, png ''b'' 768 50]))"
proof -
  let ?F = "[png ''a'' 768 50, png ''b'' 768 50]"
  have h1: "distinct ?F"
    by (simp add: png_def)
  have h2: "size_groups ?F = [] @ ((768, 50), [png ''a'' 768 50] @ [png ''b'' 768 50]) # []"
    by code_simp
  have x: "cur_x (before_last [] 50 [png ''a'' 768 50]) = 768"
    by code_simp
  have h3: "sprite_width < cur_x (before_last [] 50 [png ''a'' 768 50]) +
      fst (img_size (png ''b'' 768 50))"
    unfolding x by (simp add: sprite_width_def png_def)
  have h4: "sprite_width \<le> fst (img_size (png ''b'' 768 50))"
    by (simp add: sprite_width_def png_def)
  note t = oversized_last_image_dropped [OF h1 h2 h3 h4]
  have "length (canvases (pack ?F)) = 1"
    by code_simp
  then have "canvases (pack ?F) ! 0 \<in> set (canvases (pack ?F))"
    by (metis nth_mem zero_less_one)
  with t have "png ''b'' 768 50 \<notin> pasted (canvases (pack ?F) ! 0)"
    by blast
  with h1 h2 h3 h4 t show ?thesis
    by blast
qed

end
